theory Spec2Isabelle
  imports Main "HOL-Library.Word"
begin

section \<open>Keys\<close>

text \<open>
  \<^verbatim>\<open>type ID uint64\<close>, \<^verbatim>\<open>base.DiskFileNum\<close> (a \<^verbatim>\<open>uint64\<close>) and the block offset are
  64-bit words. The Go struct \<^verbatim>\<open>key\<close> embeds \<^verbatim>\<open>fileKey\<close>; the field \<^verbatim>\<open>id\<close> is
  written \<open>id_ns\<close> here because \<open>id\<close> is the identity function of HOL.
\<close>

type_synonym ID = "64 word"
type_synonym DiskFileNum = "64 word"

record fileKey =
  id_ns :: ID
  fileNum :: DiskFileNum

record key = fileKey +
  offset :: "64 word"

definition mkKey :: "ID \<Rightarrow> DiskFileNum \<Rightarrow> 64 word \<Rightarrow> key" where
  "mkKey i f off = \<lparr>id_ns = i, fileNum = f, offset = off\<rparr>"

text \<open>\<^verbatim>\<open>func (k key) file() key\<close>: the key with its offset zeroed.\<close>

definition file_k :: "key \<Rightarrow> key" where
  "file_k k = k\<lparr>offset := 0\<rparr>"

section \<open>Values and their reference counts\<close>

text \<open>
  Modelled from the spec: the type \<^verbatim>\<open>Value\<close> and its methods \<^verbatim>\<open>refs\<close>, \<^verbatim>\<open>acquire\<close>
  and \<^verbatim>\<open>release\<close> (value.go is not among the sources). A Value is an owned byte buffer
  plus a reference count; it is created with count 1, the count is incremented for every
  new owner and decremented on release, and the buffer is returned to the allocator only
  at count 0. A \<^verbatim>\<open>*Value\<close> is an address into the store of manually managed Values;
  \<^verbatim>\<open>nil\<close> is \<open>None\<close>.
\<close>

record Value =
  buf :: "8 word list"
  ref :: int

type_synonym vptr = nat
type_synonym vstore = "vptr \<rightharpoonup> Value"

definition acquire :: "vptr \<Rightarrow> vstore \<Rightarrow> vstore" where
  "acquire p m = (case m p of None \<Rightarrow> m | Some v \<Rightarrow> m(p \<mapsto> v\<lparr>ref := ref v + 1\<rparr>))"

text \<open>Releasing \<^verbatim>\<open>nil\<close> does nothing (\<^verbatim>\<open>c.metaDel(e).release()\<close> relies on it).\<close>

definition release :: "vptr option \<Rightarrow> vstore \<Rightarrow> vstore" where
  "release p m =
     (case p of None \<Rightarrow> m
      | Some a \<Rightarrow> (case m a of None \<Rightarrow> m
                   | Some v \<Rightarrow> if ref v - 1 = 0 then m(a := None)
                               else m(a \<mapsto> v\<lparr>ref := ref v - 1\<rparr>)))"

section \<open>Entries\<close>

datatype entryType = etHot | etCold | etTest

text \<open>
  Modelled from the spec: the type \<^verbatim>\<open>entry\<close> with \<^verbatim>\<open>newEntry\<close>, \<^verbatim>\<open>setValue\<close>,
  \<^verbatim>\<open>peekValue\<close>, \<^verbatim>\<open>acquireValue\<close>, \<^verbatim>\<open>free\<close> and the ring operations \<^verbatim>\<open>next\<close>,
  \<^verbatim>\<open>prev\<close>, \<^verbatim>\<open>link\<close>, \<^verbatim>\<open>unlink\<close>, \<^verbatim>\<open>linkFile\<close>, \<^verbatim>\<open>unlinkFile\<close> (entry.go is not among
  the sources). An entry is a metadata node: key, size in bytes, type tag, reference bit,
  at most one Value, and links in the shard ring and in the ring of its file. The field
  \<^verbatim>\<open>size\<close> is written \<open>size_e\<close> (\<open>size\<close> is a HOL constant). Sizes are \<^verbatim>\<open>int64\<close> in
  the source; they are sums of buffer lengths and are modelled as unbounded integers.

  An entry that is linked into a shard is identified by its key: the shard holds exactly
  one entry per key, so a \<^verbatim>\<open>*entry\<close> found in a hand, in a ring or in the files map is
  modelled by the key under which the blocks map owns the entry. The links themselves
  are kept as the circular lists they form (below).
\<close>

record entry =
  key :: key
  val :: "vptr option"
  size_e :: int
  ptype :: entryType
  referenced :: bool

text \<open>A new entry is cold, unreferenced and holds no Value.\<close>

definition newEntry :: "key \<Rightarrow> int \<Rightarrow> entry" where
  "newEntry k sz = \<lparr>key = k, val = None, size_e = sz, ptype = etCold, referenced = False\<rparr>"

text \<open>\<^verbatim>\<open>setValue\<close> takes a reference on the new Value and releases the old one.\<close>

definition setValue :: "vptr option \<Rightarrow> entry \<Rightarrow> vstore \<Rightarrow> entry \<times> vstore" where
  "setValue v e m =
     (let m1 = (case v of None \<Rightarrow> m | Some p \<Rightarrow> acquire p m)
      in (e\<lparr>val := v\<rparr>, release (val e) m1))"

text \<open>\<^verbatim>\<open>free\<close> destroys an entry: its Value (if any) is released.\<close>

definition free :: "entry \<Rightarrow> vstore \<Rightarrow> vstore" where
  "free e m = snd (setValue None e m)"

subsection \<open>Circular lists\<close>

text \<open>
  A circular doubly-linked list is represented by the list of its nodes in successor
  order; the successor of the last node is the first. A ring of exactly one node links
  to itself, and so does a node that is in no ring.
\<close>

definition ring_next :: "'a \<Rightarrow> 'a list \<Rightarrow> 'a" where
  "ring_next a xs =
     (case dropWhile (\<lambda>x. x \<noteq> a) xs of
        [] \<Rightarrow> a
      | [_] \<Rightarrow> (case xs of [] \<Rightarrow> a | h # _ \<Rightarrow> h)
      | _ # b # _ \<Rightarrow> b)"

definition ring_prev :: "'a \<Rightarrow> 'a list \<Rightarrow> 'a" where
  "ring_prev a xs =
     (if a \<notin> set xs then a
      else (case takeWhile (\<lambda>x. x \<noteq> a) xs of
              [] \<Rightarrow> last xs
            | y # ys \<Rightarrow> last (y # ys)))"

text \<open>\<^verbatim>\<open>e.link(s)\<close> inserts \<open>s\<close> just before \<open>e\<close>.\<close>

definition ring_link :: "'a \<Rightarrow> 'a \<Rightarrow> 'a list \<Rightarrow> 'a list" where
  "ring_link e s xs = takeWhile (\<lambda>x. x \<noteq> e) xs @ s # dropWhile (\<lambda>x. x \<noteq> e) xs"

definition ring_unlink :: "'a \<Rightarrow> 'a list \<Rightarrow> 'a list" where
  "ring_unlink e xs = remove1 e xs"

section \<open>The shard\<close>

text \<open>
  The fields of the Go struct \<^verbatim>\<open>shard\<close> (the mutex and the \<^verbatim>\<open>entries\<close> map, which only
  keeps Go-allocated entries alive, are left out), followed by the memory the shard's
  pointers lead to: \<open>ring\<close> is the shard-wide ring of entries (their \<^verbatim>\<open>blockLink\<close>s),
  \<open>fileRings fk\<close> the ring of the entries of file \<open>fk\<close> (their \<^verbatim>\<open>fileLink\<close>s), and
  \<open>vmem\<close> the store of Values.
\<close>

record shard =
  hits :: int
  misses :: int
  reservedSize :: int
  maxSize :: int
  coldTarget :: int
  blocks :: "key \<rightharpoonup> entry"
  files :: "key \<rightharpoonup> key"
  handHot :: "key option"
  handCold :: "key option"
  handTest :: "key option"
  sizeHot :: int
  sizeCold :: int
  sizeTest :: int
  countHot :: int
  countCold :: int
  countTest :: int
  ring :: "key list"
  fileRings :: "key \<Rightarrow> key list"
  vmem :: vstore

record Handle =
  "value" :: "vptr option"

definition Valid :: "Handle \<Rightarrow> bool" where
  "Valid h = (value h \<noteq> None)"

text \<open>
  Panics of the source are error values; \<open>OutOfFuel\<close> is not a panic but the result of a
  loop that was cut off by the step bound of the model.
\<close>

datatype error =
    OutOfFuel
  | NilDereference
  | ValueAlreadyAdded
  | UnexpectedNegative
  | SizeCountMismatch
  | ColdArgsMismatch

definition andThen :: "error + 'a \<Rightarrow> ('a \<Rightarrow> error + 'b) \<Rightarrow> error + 'b" where
  "andThen r f = (case r of Inl e \<Rightarrow> Inl e | Inr x \<Rightarrow> f x)"

text \<open>\<^verbatim>\<open>e.next()\<close> and \<^verbatim>\<open>e.prev()\<close> in the shard ring; both return \<^verbatim>\<open>nil\<close> on \<^verbatim>\<open>nil\<close>.\<close>

definition next_e :: "key option \<Rightarrow> shard \<Rightarrow> key option" where
  "next_e e c = (case e of None \<Rightarrow> None | Some k \<Rightarrow> Some (ring_next k (ring c)))"

definition prev_e :: "key option \<Rightarrow> shard \<Rightarrow> key option" where
  "prev_e e c = (case e of None \<Rightarrow> None | Some k \<Rightarrow> Some (ring_prev k (ring c)))"

text \<open>\<^verbatim>\<open>e.link(s)\<close>; \<^verbatim>\<open>e.unlink()\<close> returns the former successor of \<open>e\<close>.\<close>

definition link :: "key \<Rightarrow> key \<Rightarrow> shard \<Rightarrow> shard" where
  "link e s c = c\<lparr>ring := ring_link e s (ring c)\<rparr>"

definition unlink :: "key \<Rightarrow> shard \<Rightarrow> key \<times> shard" where
  "unlink e c = (ring_next e (ring c), c\<lparr>ring := ring_unlink e (ring c)\<rparr>)"

text \<open>The same for the ring of the entry's file.\<close>

definition linkFile :: "key \<Rightarrow> key \<Rightarrow> shard \<Rightarrow> shard" where
  "linkFile e s c =
     c\<lparr>fileRings := (fileRings c)(file_k e := ring_link e s (fileRings c (file_k e)))\<rparr>"

definition unlinkFile :: "key \<Rightarrow> shard \<Rightarrow> key \<times> shard" where
  "unlinkFile e c =
     (ring_next e (fileRings c (file_k e)),
      c\<lparr>fileRings := (fileRings c)(file_k e := ring_unlink e (fileRings c (file_k e)))\<rparr>)"

definition targetSize :: "shard \<Rightarrow> int" where
  "targetSize c =
     (let target = maxSize c - reservedSize c
      in if target < 1 then 1 else target)"

definition checkConsistency :: "shard \<Rightarrow> error + shard" where
  "checkConsistency c =
     (if sizeHot c < 0 \<or> sizeCold c < 0 \<or> sizeTest c < 0
         \<or> countHot c < 0 \<or> countCold c < 0 \<or> countTest c < 0 then Inl UnexpectedNegative
      else if sizeHot c > 0 \<and> countHot c = 0 then Inl SizeCountMismatch
      else if sizeCold c > 0 \<and> countCold c = 0 then Inl SizeCountMismatch
      else if sizeTest c > 0 \<and> countTest c = 0 then Inl SizeCountMismatch
      else Inr c)"

text \<open>
  \<^verbatim>\<open>metaDel\<close>: remove the entry from the blocks map, move the hands off it, unlink it
  from both rings and update the files map. Returns the Value the entry held. The
  assignment \<^verbatim>\<open>e.val = nil\<close> concerns the removed entry only; every caller either frees
  the entry next or passes an entry whose Value is already \<^verbatim>\<open>nil\<close>.
\<close>

definition metaDel :: "entry \<Rightarrow> shard \<Rightarrow> vptr option \<times> shard" where
  "metaDel e c =
     (let deletedValue = val e;
          c1 = c\<lparr>blocks := (blocks c)(key e := None)\<rparr>;
          c2 = (if Some (key e) = handHot c1 then c1\<lparr>handHot := prev_e (handHot c1) c1\<rparr> else c1);
          c3 = (if Some (key e) = handCold c2 then c2\<lparr>handCold := prev_e (handCold c2) c2\<rparr> else c2);
          c4 = (if Some (key e) = handTest c3 then c3\<lparr>handTest := prev_e (handTest c3) c3\<rparr> else c3);
          (nx, c5) = unlink (key e) c4;
          c6 = (if nx = key e then c5\<lparr>handHot := None, handCold := None, handTest := None\<rparr> else c5);
          fkey = file_k (key e);
          (fnx, c7) = unlinkFile (key e) c6;
          c8 = (if key e = fnx then c7\<lparr>files := (files c7)(fkey := None)\<rparr>
                else c7\<lparr>files := (files c7)(fkey \<mapsto> fnx)\<rparr>)
      in (deletedValue, c8))"

text \<open>
  \<^verbatim>\<open>metaCheck\<close> does nothing unless the build tag \<^verbatim>\<open>invariants\<close> is set; the model is of
  the build without it. \<^verbatim>\<open>e.free()\<close> after \<^verbatim>\<open>metaDel\<close> finds the Value already detached.
\<close>

definition metaEvict :: "entry \<Rightarrow> shard \<Rightarrow> vptr option \<times> shard" where
  "metaEvict e c =
     (let c1 = (case ptype e of
                  etHot \<Rightarrow> c\<lparr>sizeHot := sizeHot c - size_e e, countHot := countHot c - 1\<rparr>
                | etCold \<Rightarrow> c\<lparr>sizeCold := sizeCold c - size_e e, countCold := countCold c - 1\<rparr>
                | etTest \<Rightarrow> c\<lparr>sizeTest := sizeTest c - size_e e, countTest := countTest c - 1\<rparr>)
      in metaDel e c1)"

subsection \<open>The three hands\<close>

text \<open>The statements of \<^verbatim>\<open>runHandHot\<close> after its guard: one step of the hot hand.\<close>

definition hotStep :: "shard \<Rightarrow> error + shard" where
  "hotStep c =
     (case handHot c of None \<Rightarrow> Inl NilDereference
      | Some k \<Rightarrow>
        (case blocks c k of None \<Rightarrow> Inl NilDereference
         | Some e \<Rightarrow>
           (let c1 = (if ptype e = etHot then
                        (if referenced e then c\<lparr>blocks := (blocks c)(k \<mapsto> e\<lparr>referenced := False\<rparr>)\<rparr>
                         else c\<lparr>blocks := (blocks c)(k \<mapsto> e\<lparr>ptype := etCold\<rparr>),
                                sizeHot := sizeHot c - size_e e, countHot := countHot c - 1,
                                sizeCold := sizeCold c + size_e e, countCold := countCold c + 1\<rparr>)
                      else c)
            in Inr (c1\<lparr>handHot := next_e (handHot c1) c1\<rparr>))))"

text \<open>The statements of \<^verbatim>\<open>runHandTest\<close> after its guard: one step of the test hand.\<close>

definition testStep :: "shard \<Rightarrow> error + shard" where
  "testStep c =
     (case handTest c of None \<Rightarrow> Inl NilDereference
      | Some k \<Rightarrow>
        (case blocks c k of None \<Rightarrow> Inl NilDereference
         | Some e \<Rightarrow>
           (let c1 = (if ptype e = etTest then
                        (let c2 = c\<lparr>sizeTest := sizeTest c - size_e e, countTest := countTest c - 1,
                                    coldTarget := (if coldTarget c - size_e e < 0 then 0
                                                   else coldTarget c - size_e e)\<rparr>;
                             (dv, c3) = metaDel e c2
                         in c3\<lparr>vmem := release dv (vmem c3)\<rparr>)
                      else c)
            in Inr (c1\<lparr>handTest := next_e (handTest c1) c1\<rparr>))))"

text \<open>
  The two transitions of \<^verbatim>\<open>runHandCold\<close> on the cold entry \<open>e\<close> at the cold hand
  (key \<open>k\<close>): a referenced entry becomes hot and loses its reference bit; an
  unreferenced one drops its Value and becomes a test entry.
\<close>

definition coldToHot :: "key \<Rightarrow> entry \<Rightarrow> shard \<Rightarrow> shard" where
  "coldToHot k e c =
     c\<lparr>blocks := (blocks c)(k \<mapsto> e\<lparr>referenced := False, ptype := etHot\<rparr>),
       sizeCold := sizeCold c - size_e e, countCold := countCold c - 1,
       sizeHot := sizeHot c + size_e e, countHot := countHot c + 1\<rparr>"

definition coldToTest :: "key \<Rightarrow> entry \<Rightarrow> shard \<Rightarrow> shard" where
  "coldToTest k e c =
     (let (e1, m1) = setValue None e (vmem c)
      in c\<lparr>blocks := (blocks c)(k \<mapsto> e1\<lparr>ptype := etTest\<rparr>), vmem := m1,
           sizeCold := sizeCold c - size_e e, countCold := countCold c - 1,
           sizeTest := sizeTest c + size_e e, countTest := countTest c + 1\<rparr>)"

text \<open>
  \<^verbatim>\<open>evict\<close>, \<^verbatim>\<open>runHandCold\<close> (with its two inner loops \<open>testLoop\<close> and \<open>hotLoop\<close>),
  \<^verbatim>\<open>runHandHot\<close> and \<^verbatim>\<open>runHandTest\<close> call each other; the source gives no bound on the
  number of steps, so each carries a step bound and returns \<open>OutOfFuel\<close> when it is used
  up.
\<close>

fun evict :: "nat \<Rightarrow> shard \<Rightarrow> error + shard"
  and runHandCold :: "nat \<Rightarrow> int \<Rightarrow> int \<Rightarrow> shard \<Rightarrow> error + shard"
  and testLoop :: "nat \<Rightarrow> shard \<Rightarrow> error + shard"
  and hotLoop :: "nat \<Rightarrow> shard \<Rightarrow> error + shard"
  and runHandHot :: "nat \<Rightarrow> shard \<Rightarrow> error + shard"
  and runHandTest :: "nat \<Rightarrow> shard \<Rightarrow> error + shard"
where
  "evict 0 c = Inl OutOfFuel"
| "evict (Suc n) c =
     (if targetSize c \<le> sizeHot c + sizeCold c \<and> handCold c \<noteq> None
      then andThen (runHandCold n (countCold c) (sizeCold c) c) (evict n)
      else Inr c)"
| "runHandCold 0 countColdDebug sizeColdDebug c = Inl OutOfFuel"
| "runHandCold (Suc n) countColdDebug sizeColdDebug c =
     (if countCold c \<noteq> countColdDebug \<or> sizeCold c \<noteq> sizeColdDebug then Inl ColdArgsMismatch
      else
        (case handCold c of None \<Rightarrow> Inl NilDereference
         | Some k \<Rightarrow>
           (case blocks c k of None \<Rightarrow> Inl NilDereference
            | Some e \<Rightarrow>
              andThen
                (if ptype e = etCold then
                   (if referenced e then Inr (coldToHot k e c)
                    else testLoop n (coldToTest k e c))
                 else Inr c)
                (\<lambda>c1. hotLoop n (c1\<lparr>handCold := next_e (handCold c1) c1\<rparr>)))))"
| "testLoop 0 c = Inl OutOfFuel"
| "testLoop (Suc n) c =
     (if targetSize c < sizeTest c \<and> handTest c \<noteq> None
      then andThen (runHandTest n c) (testLoop n)
      else Inr c)"
| "hotLoop 0 c = Inl OutOfFuel"
| "hotLoop (Suc n) c =
     (if targetSize c - coldTarget c \<le> sizeHot c \<and> handHot c \<noteq> None
      then andThen (runHandHot n c) (hotLoop n)
      else Inr c)"
| "runHandHot 0 c = Inl OutOfFuel"
| "runHandHot (Suc n) c =
     (if handHot c = handTest c \<and> handTest c \<noteq> None
      then andThen (runHandTest n c) (\<lambda>c1. if handHot c1 = None then Inr c1 else hotStep c1)
      else hotStep c)"
| "runHandTest 0 c = Inl OutOfFuel"
| "runHandTest (Suc n) c =
     (if sizeCold c > 0 \<and> handTest c = handCold c \<and> handCold c \<noteq> None
      then (if countCold c = 0 then Inl SizeCountMismatch
            else andThen (runHandCold n (countCold c) (sizeCold c) c)
                   (\<lambda>c1. if handTest c1 = None then Inr c1 else testStep c1))
      else testStep c)"

subsection \<open>Adding an entry\<close>

text \<open>
  \<^verbatim>\<open>metaAdd\<close>: run the eviction sweep, decline an entry larger than the target size,
  otherwise put it into the blocks map, link it before the hot hand and into the ring of
  its file (\<open>linkEntry\<close>, the statements of \<^verbatim>\<open>metaAdd\<close> after the size check).
\<close>

definition linkEntry :: "key \<Rightarrow> entry \<Rightarrow> shard \<Rightarrow> shard" where
  "linkEntry k e c0 =
     (let c1 = c0\<lparr>blocks := (blocks c0)(k \<mapsto> e)\<rparr>;
          c2 = (case handHot c1 of
                  None \<Rightarrow> c1\<lparr>handHot := Some (key e), handCold := Some (key e),
                             handTest := Some (key e), ring := [key e]\<rparr>
                | Some h \<Rightarrow> link h (key e) c1);
          c3 = (if handCold c2 = handHot c2 then c2\<lparr>handCold := prev_e (handCold c2) c2\<rparr>
                else c2);
          fkey = file_k k;
          c4 = (case files c3 fkey of
                  None \<Rightarrow> c3\<lparr>files := (files c3)(fkey \<mapsto> key e),
                             fileRings := (fileRings c3)(fkey := [key e])\<rparr>
                | Some fileBlocks \<Rightarrow> linkFile fileBlocks (key e) c3)
      in c4)"

definition metaAdd :: "nat \<Rightarrow> key \<Rightarrow> entry \<Rightarrow> shard \<Rightarrow> error + (bool \<times> shard)" where
  "metaAdd n k e c =
     andThen (evict n c) (\<lambda>c0.
       if size_e e > targetSize c0 then Inr (False, c0)
       else Inr (True, linkEntry k e c0))"

section \<open>Operations of the shard\<close>

definition Get :: "ID \<Rightarrow> DiskFileNum \<Rightarrow> 64 word \<Rightarrow> shard \<Rightarrow> shard \<times> Handle" where
  "Get i f off c =
     (let k = mkKey i f off
      in case blocks c k of
           None \<Rightarrow> (c\<lparr>misses := misses c + 1\<rparr>, \<lparr>value = None\<rparr>)
         | Some e \<Rightarrow>
           (case val e of
              None \<Rightarrow> (c\<lparr>misses := misses c + 1\<rparr>, \<lparr>value = None\<rparr>)
            | Some p \<Rightarrow>
              (c\<lparr>vmem := acquire p (vmem c),
                 blocks := (blocks c)(k \<mapsto> e\<lparr>referenced := True\<rparr>),
                 hits := hits c + 1\<rparr>,
               \<lparr>value = Some p\<rparr>)))"

text \<open>
  The three cases of the \<^verbatim>\<open>switch\<close> in \<^verbatim>\<open>Set\<close>, for the key \<open>k\<close>, the Value at
  address \<open>p\<close> and \<open>len = int64(len(value.buf))\<close>.
\<close>

text \<open>\<^verbatim>\<open>case e == nil\<close>: no cache entry, add a cold one.\<close>

definition setNew :: "nat \<Rightarrow> key \<Rightarrow> vptr \<Rightarrow> int \<Rightarrow> shard \<Rightarrow> error + shard" where
  "setNew n k p len c =
     (let (e, m) = setValue (Some p) (newEntry k len) (vmem c)
      in andThen (metaAdd n k e (c\<lparr>vmem := m\<rparr>)) (\<lambda>(added, c1).
           if added
           then Inr (c1\<lparr>sizeCold := sizeCold c1 + size_e e, countCold := countCold c1 + 1\<rparr>)
           else Inr (c1\<lparr>vmem := free e (vmem c1)\<rparr>)))"

text \<open>\<^verbatim>\<open>case e.peekValue() != nil\<close>: the entry was a hot or cold page.\<close>

definition setResident :: "nat \<Rightarrow> key \<Rightarrow> entry \<Rightarrow> vptr \<Rightarrow> int \<Rightarrow> shard \<Rightarrow> error + shard" where
  "setResident n k e p len c =
     (let (e1, m) = setValue (Some p) e (vmem c);
          e2 = e1\<lparr>referenced := True\<rparr>;
          delta = len - size_e e2;
          e3 = e2\<lparr>size_e := len\<rparr>;
          c1 = c\<lparr>vmem := m, blocks := (blocks c)(k \<mapsto> e3)\<rparr>;
          c2 = (if ptype e3 = etHot then c1\<lparr>sizeHot := sizeHot c1 + delta\<rparr>
                else c1\<lparr>sizeCold := sizeCold c1 + delta\<rparr>)
      in evict n c2)"

text \<open>
  \<^verbatim>\<open>default\<close>: the entry was a test page. \<open>setTestUnlink\<close> is the part up to the
  adjustment of \<^verbatim>\<open>coldTarget\<close>, \<open>setTestEntry\<close> the entry as it is handed to
  \<^verbatim>\<open>metaAdd\<close> (before its Value is set).
\<close>

definition setTestUnlink :: "entry \<Rightarrow> int \<Rightarrow> shard \<Rightarrow> shard" where
  "setTestUnlink e len c =
     (let c1 = c\<lparr>sizeTest := sizeTest c - size_e e, countTest := countTest c - 1\<rparr>;
          (dv, c2) = metaDel e c1;
          c3 = c2\<lparr>vmem := release dv (vmem c2)\<rparr>;
          e1 = e\<lparr>size_e := len\<rparr>;
          c4 = c3\<lparr>coldTarget := coldTarget c3 + size_e e1\<rparr>;
          c5 = (if coldTarget c4 > targetSize c4 then c4\<lparr>coldTarget := targetSize c4\<rparr> else c4)
      in c5)"

definition setTestEntry :: "entry \<Rightarrow> int \<Rightarrow> entry" where
  "setTestEntry e len = e\<lparr>size_e := len, referenced := False\<rparr>"

definition setTest :: "nat \<Rightarrow> key \<Rightarrow> entry \<Rightarrow> vptr \<Rightarrow> int \<Rightarrow> shard \<Rightarrow> error + shard" where
  "setTest n k e p len c =
     (let c5 = setTestUnlink e len c;
          e2 = setTestEntry e len;
          (e3, m) = setValue (Some p) e2 (vmem c5);
          e4 = e3\<lparr>ptype := etHot\<rparr>
      in andThen (metaAdd n k e4 (c5\<lparr>vmem := m\<rparr>)) (\<lambda>(added, c6).
           if added
           then Inr (c6\<lparr>sizeHot := sizeHot c6 + size_e e4, countHot := countHot c6 + 1\<rparr>)
           else Inr (c6\<lparr>vmem := free e4 (vmem c6)\<rparr>)))"

text \<open>
  \<^verbatim>\<open>Set\<close> panics unless the Value has exactly one reference; the returned Handle
  takes that reference over.
\<close>

definition Set :: "nat \<Rightarrow> ID \<Rightarrow> DiskFileNum \<Rightarrow> 64 word \<Rightarrow> vptr \<Rightarrow> shard \<Rightarrow> error + (shard \<times> Handle)" where
  "Set n i f off p c =
     (case vmem c p of None \<Rightarrow> Inl NilDereference
      | Some v \<Rightarrow>
        if ref v \<noteq> 1 then Inl ValueAlreadyAdded
        else
          (let k = mkKey i f off;
               len = int (length (buf v))
           in andThen
                (case blocks c k of
                   None \<Rightarrow> setNew n k p len c
                 | Some e \<Rightarrow>
                     if val e \<noteq> None then setResident n k e p len c
                     else setTest n k e p len c)
                (\<lambda>c'. andThen (checkConsistency c') (\<lambda>c''. Inr (c'', \<lparr>value = Some p\<rparr>)))))"

text \<open>
  \<^verbatim>\<open>Delete\<close> looks the key up under the read lock and again under the write lock; run
  alone, the two lookups agree. The removed Value is released after the consistency
  check.
\<close>

definition Delete :: "ID \<Rightarrow> DiskFileNum \<Rightarrow> 64 word \<Rightarrow> shard \<Rightarrow> error + shard" where
  "Delete i f off c =
     (let k = mkKey i f off
      in case blocks c k of
           None \<Rightarrow> Inr c
         | Some e \<Rightarrow>
           (let (deletedValue, c1) = metaEvict e c
            in andThen (checkConsistency c1)
                 (\<lambda>c2. Inr (c2\<lparr>vmem := release deletedValue (vmem c2)\<rparr>))))"

definition blocksPerMutexAcquisition :: nat where
  "blocksPerMutexAcquisition = 5"

text \<open>
  The loop of \<^verbatim>\<open>evictFileRun\<close>; the first argument is the room left in
  \<^verbatim>\<open>obsoleteValues\<close>. The result says whether more entries remain.
\<close>

fun evictFileLoop :: "nat \<Rightarrow> key \<Rightarrow> vptr option list \<Rightarrow> shard
    \<Rightarrow> error + (bool \<times> vptr option list \<times> shard)" where
  "evictFileLoop 0 b obsoleteValues c = Inr (True, obsoleteValues, c)"
| "evictFileLoop (Suc room) b obsoleteValues c =
     (case blocks c b of None \<Rightarrow> Inl NilDereference
      | Some e \<Rightarrow>
        (let n = ring_next b (fileRings c (file_k b));
             (v, c1) = metaEvict e c;
             obs = obsoleteValues @ [v]
         in if b = n then andThen (checkConsistency c1) (\<lambda>c2. Inr (False, obs, c2))
            else evictFileLoop room n obs c1))"

definition evictFileRun :: "key \<Rightarrow> shard \<Rightarrow> error + (bool \<times> shard)" where
  "evictFileRun fkey c =
     (case files c fkey of
        None \<Rightarrow> Inr (False, c)
      | Some b \<Rightarrow>
        andThen (evictFileLoop blocksPerMutexAcquisition b [] c) (\<lambda>(more, obs, c1).
          Inr (more, c1\<lparr>vmem := foldl (\<lambda>m v. release v m) (vmem c1) obs\<rparr>)))"

fun EvictFile :: "nat \<Rightarrow> ID \<Rightarrow> DiskFileNum \<Rightarrow> shard \<Rightarrow> error + shard" where
  "EvictFile 0 i f c = Inl OutOfFuel"
| "EvictFile (Suc n) i f c =
     andThen (evictFileRun (mkKey i f 0) c)
       (\<lambda>(more, c1). if more then EvictFile n i f c1 else Inr c1)"

definition Reserve :: "nat \<Rightarrow> int \<Rightarrow> shard \<Rightarrow> error + shard" where
  "Reserve fuel n c =
     (let c1 = c\<lparr>reservedSize := reservedSize c + n\<rparr>;
          c2 = (if coldTarget c1 > targetSize c1 then c1\<lparr>coldTarget := targetSize c1\<rparr> else c1)
      in andThen (evict fuel c2) checkConsistency)"

definition Size :: "shard \<Rightarrow> int" where
  "Size c = sizeHot c + sizeCold c"

text \<open>
  A shard as \<^verbatim>\<open>newShards\<close> creates it, for a per-shard size \<open>m\<close>
  (\<^verbatim>\<open>size / int64(len(c.shards))\<close>); nothing is cached and no Value is allocated.
\<close>

definition newShard :: "int \<Rightarrow> shard" where
  "newShard m =
     \<lparr>hits = 0, misses = 0, reservedSize = 0, maxSize = m, coldTarget = m,
      blocks = Map.empty, files = Map.empty,
      handHot = None, handCold = None, handTest = None,
      sizeHot = 0, sizeCold = 0, sizeTest = 0,
      countHot = 0, countCold = 0, countTest = 0,
      ring = [], fileRings = (\<lambda>_. []), vmem = Map.empty\<rparr>"

text \<open>\<^verbatim>\<open>Alloc(n)\<close>: a fresh Value of \<open>n\<close> bytes with reference count 1, at address \<open>p\<close>.\<close>

definition Alloc :: "vptr \<Rightarrow> nat \<Rightarrow> shard \<Rightarrow> shard" where
  "Alloc p n c = c\<lparr>vmem := (vmem c)(p \<mapsto> \<lparr>buf = replicate n 0, ref = 1\<rparr>)\<rparr>"

section \<open>Well-formed shards\<close>

definition hand_del :: "key \<Rightarrow> key list \<Rightarrow> key option \<Rightarrow> key option" where
  "hand_del k xs h =
     (if ring_next k xs = k then None
      else if h = Some k then Some (ring_prev k xs) else h)"

definition wt :: "entryType \<Rightarrow> (key \<rightharpoonup> entry) \<Rightarrow> key \<Rightarrow> int" where
  "wt t b k = (case b k of None \<Rightarrow> 0 | Some e \<Rightarrow> if ptype e = t then size_e e else 0)"

definition cnt :: "entryType \<Rightarrow> (key \<rightharpoonup> entry) \<Rightarrow> key \<Rightarrow> int" where
  "cnt t b k = (case b k of None \<Rightarrow> 0 | Some e \<Rightarrow> if ptype e = t then 1 else 0)"

definition totalSize :: "entryType \<Rightarrow> shard \<Rightarrow> int" where
  "totalSize t c = sum_list (map (wt t (blocks c)) (ring c))"

definition totalCount :: "entryType \<Rightarrow> shard \<Rightarrow> int" where
  "totalCount t c = sum_list (map (cnt t (blocks c)) (ring c))"

definition entry_ok :: "key \<Rightarrow> entry \<Rightarrow> bool" where
  "entry_ok k e = (key e = k \<and> 0 \<le> size_e e \<and> ((val e = None) = (ptype e = etTest)))"

definition entries_ok :: "shard \<Rightarrow> bool" where
  "entries_ok c = (\<forall>k\<in>set (ring c). case blocks c k of None \<Rightarrow> False | Some e \<Rightarrow> entry_ok k e)"

definition ring_ok :: "shard \<Rightarrow> bool" where
  "ring_ok c = (distinct (ring c) \<and> dom (blocks c) = set (ring c))"

definition hand_in :: "'a option \<Rightarrow> 'a list \<Rightarrow> bool" where
  "hand_in h xs = (case h of None \<Rightarrow> xs = [] | Some k \<Rightarrow> k \<in> set xs)"

definition hands_ok :: "shard \<Rightarrow> bool" where
  "hands_ok c = (hand_in (handHot c) (ring c) \<and> hand_in (handCold c) (ring c)
                 \<and> hand_in (handTest c) (ring c))"

definition counters_ok :: "shard \<Rightarrow> bool" where
  "counters_ok c =
     (sizeHot c = totalSize etHot c \<and> sizeCold c = totalSize etCold c
      \<and> sizeTest c = totalSize etTest c \<and> countHot c = totalCount etHot c
      \<and> countCold c = totalCount etCold c \<and> countTest c = totalCount etTest c)"

definition files_ok :: "shard \<Rightarrow> bool" where
  "files_ok c =
     (\<forall>fk. distinct (fileRings c fk)
        \<and> set (fileRings c fk) = {k \<in> set (ring c). file_k k = fk}
        \<and> hand_in (files c fk) (fileRings c fk))"

definition target_ok :: "shard \<Rightarrow> bool" where
  "target_ok c = (0 \<le> coldTarget c \<and> coldTarget c \<le> targetSize c)"

definition shard_inv :: "shard \<Rightarrow> bool" where
  "shard_inv c = (entries_ok c \<and> ring_ok c \<and> hands_ok c \<and> counters_ok c \<and> files_ok c
                  \<and> target_ok c)"

definition evolves :: "shard \<Rightarrow> shard \<Rightarrow> bool" where
  "evolves c c' =
     (maxSize c' = maxSize c \<and> reservedSize c' = reservedSize c
      \<and> hits c' = hits c \<and> misses c' = misses c \<and> coldTarget c' \<le> coldTarget c
      \<and> (\<forall>k. case blocks c' k of None \<Rightarrow> True
              | Some e' \<Rightarrow> (case blocks c k of None \<Rightarrow> False
                            | Some e \<Rightarrow> size_e e' = size_e e \<and> (val e' = val e \<or> val e' = None)))
      \<and> (\<forall>p. vmem c' p = vmem c p
              \<or> (\<exists>k e. blocks c k = Some e \<and> val e = Some p
                    \<and> (case blocks c' k of None \<Rightarrow> True | Some e' \<Rightarrow> val e' = None))))"

definition okstep :: "shard \<Rightarrow> shard \<Rightarrow> bool" where
  "okstep c c' = (shard_inv c' \<and> evolves c c')"

section \<open>Example states\<close>

text \<open>
  A shard of size 10 and three allocated Values of 6 bytes; \<open>ex1\<close> and \<open>ex2\<close> are the
  states after caching the first and then the second Value under two keys of file 1.
\<close>

definition ex0 :: shard where
  "ex0 = Alloc 2 6 (Alloc 1 6 (Alloc 0 6 (newShard 10)))"

definition ex1 :: shard where
  "ex1 = (case Set 20 1 1 0 0 ex0 of Inr (c, h) \<Rightarrow> c | Inl _ \<Rightarrow> ex0)"

definition ex2 :: shard where
  "ex2 = (case Set 20 1 1 8 1 ex1 of Inr (c, h) \<Rightarrow> c | Inl _ \<Rightarrow> ex1)"

section \<open>Circular lists: successor, predecessor, insertion, removal\<close>

lemma ring_next_in: "a \<in> set xs \<Longrightarrow> ring_next a xs \<in> set xs"
proof -
  assume a: "a \<in> set xs"
  show ?thesis
  proof (cases "dropWhile (\<lambda>x. x \<noteq> a) xs")
    case Nil
    then show ?thesis using a by (auto simp: ring_next_def dropWhile_eq_Nil_conv)
  next
    case (Cons y ys)
    show ?thesis
    proof (cases ys)
      case Nil
      then show ?thesis using Cons a by (cases xs) (auto simp: ring_next_def)
    next
      case (Cons z zs)
      have "z \<in> set (dropWhile (\<lambda>x. x \<noteq> a) xs)" using \<open>dropWhile _ xs = y # ys\<close> Cons by simp
      then have "z \<in> set xs" by (rule set_dropWhileD)
      then show ?thesis using \<open>dropWhile _ xs = y # ys\<close> Cons by (simp add: ring_next_def)
    qed
  qed
qed

lemma ring_prev_in: "a \<in> set xs \<Longrightarrow> ring_prev a xs \<in> set xs"
proof -
  assume a: "a \<in> set xs"
  then have ne: "xs \<noteq> []" by auto
  show ?thesis
  proof (cases "takeWhile (\<lambda>x. x \<noteq> a) xs")
    case Nil
    then show ?thesis using a ne by (simp add: ring_prev_def)
  next
    case (Cons y ys)
    have "last (y # ys) \<in> set (takeWhile (\<lambda>x. x \<noteq> a) xs)"
      using Cons last_in_set[of "y # ys"] by simp
    then have "last (y # ys) \<in> set xs" by (rule set_takeWhileD[THEN conjunct1])
    then show ?thesis using Cons a by (simp add: ring_prev_def)
  qed
qed

lemma ring_prev_neq:
  assumes "distinct xs" "a \<in> set xs" "xs \<noteq> [a]"
  shows "ring_prev a xs \<noteq> a"
proof (cases "takeWhile (\<lambda>x. x \<noteq> a) xs")
  case Nil
  then have hd: "hd xs = a" using assms(2) by (cases xs) (auto split: if_splits)
  have "last xs \<noteq> hd xs"
  proof (cases xs)
    case Nil then show ?thesis using assms by simp
  next
    case (Cons y ys)
    then have "ys \<noteq> []" using assms hd by auto
    then have "last xs \<in> set ys" using Cons by simp
    then show ?thesis using Cons assms(1) by auto
  qed
  then show ?thesis using Nil assms(2) hd by (simp add: ring_prev_def)
next
  case (Cons y ys)
  have "last (y # ys) \<in> set (takeWhile (\<lambda>x. x \<noteq> a) xs)"
    using Cons last_in_set[of "y # ys"] by simp
  then have "last (y # ys) \<noteq> a" by (auto dest: set_takeWhileD)
  then show ?thesis using Cons assms(2) by (simp add: ring_prev_def)
qed

lemma ring_next_self:
  assumes "distinct xs" "a \<in> set xs"
  shows "(ring_next a xs = a) = (xs = [a])"
proof -
  obtain ys zs where xs: "xs = ys @ a # zs" and nin: "a \<notin> set ys"
    using assms(2) by (meson split_list_first)
  have dw: "dropWhile (\<lambda>x. x \<noteq> a) xs = a # zs"
    using xs nin by (auto simp: dropWhile_append3)
  show ?thesis
  proof (cases zs)
    case Nil
    show ?thesis
    proof (cases ys)
      case Nil then show ?thesis using xs dw \<open>zs = []\<close> by (simp add: ring_next_def)
    next
      case (Cons y ys')
      then have "y \<noteq> a" using nin by auto
      then show ?thesis using xs dw \<open>zs = []\<close> Cons by (simp add: ring_next_def)
    qed
  next
    case (Cons z zs')
    then have "z \<noteq> a" using assms(1) xs by auto
    then show ?thesis using xs dw Cons by (auto simp add: ring_next_def)
  qed
qed

lemma ring_link_set: "set (ring_link e s xs) = insert s (set xs)"
proof -
  have "set (takeWhile (\<lambda>x. x \<noteq> e) xs) \<union> set (dropWhile (\<lambda>x. x \<noteq> e) xs) = set xs"
    by (metis set_append takeWhile_dropWhile_id)
  then show ?thesis by (auto simp: ring_link_def)
qed

lemma ring_link_distinct: "distinct xs \<Longrightarrow> s \<notin> set xs \<Longrightarrow> distinct (ring_link e s xs)"
proof -
  assume d: "distinct xs" and s: "s \<notin> set xs"
  have "distinct (takeWhile (\<lambda>x. x \<noteq> e) xs @ dropWhile (\<lambda>x. x \<noteq> e) xs)" using d by simp
  moreover have "s \<notin> set (takeWhile (\<lambda>x. x \<noteq> e) xs)" "s \<notin> set (dropWhile (\<lambda>x. x \<noteq> e) xs)"
    using s by (auto dest: set_takeWhileD set_dropWhileD)
  ultimately show ?thesis by (auto simp del: takeWhile_dropWhile_id simp: ring_link_def)
qed

lemma ring_link_sum: "sum_list (map f (ring_link e s xs)) = (f s :: int) + sum_list (map f xs)"
proof -
  have "sum_list (map f (takeWhile (\<lambda>x. x \<noteq> e) xs @ dropWhile (\<lambda>x. x \<noteq> e) xs)) = sum_list (map f xs)"
    by simp
  then show ?thesis unfolding ring_link_def by (simp del: takeWhile_dropWhile_id)
qed

lemma sum_list_upd_out: "k \<notin> set xs \<Longrightarrow> sum_list (map (f(k := v)) xs) = sum_list (map f xs)"
  by (induction xs) auto

lemma sum_list_upd_in:
  "distinct xs \<Longrightarrow> k \<in> set xs \<Longrightarrow> sum_list (map (f(k := v)) xs) = sum_list (map f xs) - f k + (v::int)"
  by (induction xs) (auto simp: sum_list_upd_out)

lemma sum_list_remove1_int:
  "k \<in> set xs \<Longrightarrow> sum_list (map f (remove1 k xs)) = sum_list (map f xs) - (f k :: int)"
  by (induction xs) auto

section \<open>Removing an entry keeps the shard well formed\<close>

lemma move_handHot:
  "(if Some k = handHot c then c\<lparr>handHot := prev_e (handHot c) c\<rparr> else c) =
     c\<lparr>handHot := (if handHot c = Some k then Some (ring_prev k (ring c)) else handHot c)\<rparr>"
  by (cases "handHot c = Some k") (auto simp: prev_e_def)

lemma move_handCold:
  "(if Some k = handCold c then c\<lparr>handCold := prev_e (handCold c) c\<rparr> else c) =
     c\<lparr>handCold := (if handCold c = Some k then Some (ring_prev k (ring c)) else handCold c)\<rparr>"
  by (cases "handCold c = Some k") (auto simp: prev_e_def)

lemma move_handTest:
  "(if Some k = handTest c then c\<lparr>handTest := prev_e (handTest c) c\<rparr> else c) =
     c\<lparr>handTest := (if handTest c = Some k then Some (ring_prev k (ring c)) else handTest c)\<rparr>"
  by (cases "handTest c = Some k") (auto simp: prev_e_def)

lemma metaDel_eq:
  "metaDel e c =
     (val e,
      c\<lparr>blocks := (blocks c)(key e := None),
        handHot := hand_del (key e) (ring c) (handHot c),
        handCold := hand_del (key e) (ring c) (handCold c),
        handTest := hand_del (key e) (ring c) (handTest c),
        ring := remove1 (key e) (ring c),
        fileRings := (fileRings c)(file_k (key e) := remove1 (key e) (fileRings c (file_k (key e)))),
        files := (if ring_next (key e) (fileRings c (file_k (key e))) = key e
                  then (files c)(file_k (key e) := None)
                  else (files c)(file_k (key e) \<mapsto> ring_next (key e) (fileRings c (file_k (key e)))))\<rparr>)"
  unfolding metaDel_def move_handHot move_handCold move_handTest
  by (cases "ring_next (key e) (ring c) = key e";
      cases "ring_next (key e) (fileRings c (file_k (key e))) = key e";
      simp add: Let_def unlink_def unlinkFile_def hand_del_def ring_unlink_def)

lemma metaDel_fst [simp]: "fst (metaDel e c) = val e"
  by (simp add: metaDel_eq)

lemma metaDel_blocks [simp]: "blocks (snd (metaDel e c)) = (blocks c)(key e := None)"
  by (simp add: metaDel_eq)

lemma metaDel_ring [simp]: "ring (snd (metaDel e c)) = remove1 (key e) (ring c)"
  by (simp add: metaDel_eq)

lemma metaDel_hands [simp]:
  "handHot (snd (metaDel e c)) = hand_del (key e) (ring c) (handHot c)"
  "handCold (snd (metaDel e c)) = hand_del (key e) (ring c) (handCold c)"
  "handTest (snd (metaDel e c)) = hand_del (key e) (ring c) (handTest c)"
  by (simp_all add: metaDel_eq)

lemma metaDel_fileRings [simp]:
  "fileRings (snd (metaDel e c)) =
     (fileRings c)(file_k (key e) := remove1 (key e) (fileRings c (file_k (key e))))"
  by (simp add: metaDel_eq)

lemma metaDel_files [simp]:
  "files (snd (metaDel e c)) =
     (if ring_next (key e) (fileRings c (file_k (key e))) = key e
      then (files c)(file_k (key e) := None)
      else (files c)(file_k (key e) \<mapsto> ring_next (key e) (fileRings c (file_k (key e)))))"
  by (simp add: metaDel_eq)

lemma metaDel_other [simp]:
  "sizeHot (snd (metaDel e c)) = sizeHot c"
  "sizeCold (snd (metaDel e c)) = sizeCold c"
  "sizeTest (snd (metaDel e c)) = sizeTest c"
  "countHot (snd (metaDel e c)) = countHot c"
  "countCold (snd (metaDel e c)) = countCold c"
  "countTest (snd (metaDel e c)) = countTest c"
  "coldTarget (snd (metaDel e c)) = coldTarget c"
  "maxSize (snd (metaDel e c)) = maxSize c"
  "reservedSize (snd (metaDel e c)) = reservedSize c"
  "vmem (snd (metaDel e c)) = vmem c"
  "hits (snd (metaDel e c)) = hits c"
  "misses (snd (metaDel e c)) = misses c"
  by (simp_all add: metaDel_eq)

lemma targetSize_metaDel [simp]: "targetSize (snd (metaDel e c)) = targetSize c"
  by (simp add: targetSize_def)

lemma hand_in_None [simp]: "hand_in None xs = (xs = [])"
  by (simp add: hand_in_def)

lemma hand_in_Some [simp]: "hand_in (Some k) xs = (k \<in> set xs)"
  by (simp add: hand_in_def)

lemma hand_del_in:
  assumes "distinct xs" "k \<in> set xs" "hand_in h xs"
  shows "hand_in (hand_del k xs h) (remove1 k xs)"
proof (cases "xs = [k]")
  case True
  then show ?thesis using ring_next_self[OF assms(1,2)] by (simp add: hand_del_def)
next
  case False
  then have nx: "ring_next k xs \<noteq> k" using ring_next_self[OF assms(1,2)] by simp
  show ?thesis
  proof (cases "h = Some k")
    case True
    have "ring_prev k xs \<in> set xs" "ring_prev k xs \<noteq> k"
      using ring_prev_in[OF assms(2)] ring_prev_neq[OF assms(1,2) False] by auto
    then show ?thesis using True nx assms(1) by (simp add: hand_del_def)
  next
    case False
    then show ?thesis using nx assms by (cases h) (auto simp: hand_del_def)
  qed
qed

lemma head_del_in:
  assumes "distinct xs" "k \<in> set xs"
  shows "hand_in (if ring_next k xs = k then None else Some (ring_next k xs)) (remove1 k xs)"
proof (cases "xs = [k]")
  case True
  then show ?thesis using ring_next_self[OF assms] by simp
next
  case False
  then have nx: "ring_next k xs \<noteq> k" using ring_next_self[OF assms] by simp
  then show ?thesis using ring_next_in[OF assms(2)] assms(1) by simp
qed

lemma wt_upd: "wt t (b(k := x)) = (wt t b)(k := (case x of None \<Rightarrow> 0 | Some e \<Rightarrow> if ptype e = t then size_e e else 0))"
  by (auto simp: wt_def fun_eq_iff)

lemma cnt_upd: "cnt t (b(k := x)) = (cnt t b)(k := (case x of None \<Rightarrow> 0 | Some e \<Rightarrow> if ptype e = t then 1 else 0))"
  by (auto simp: cnt_def fun_eq_iff)

lemma metaEvict_eq:
  "metaEvict e c =
     metaDel e (c\<lparr>sizeHot := sizeHot c - (if ptype e = etHot then size_e e else 0),
                  countHot := countHot c - (if ptype e = etHot then 1 else 0),
                  sizeCold := sizeCold c - (if ptype e = etCold then size_e e else 0),
                  countCold := countCold c - (if ptype e = etCold then 1 else 0),
                  sizeTest := sizeTest c - (if ptype e = etTest then size_e e else 0),
                  countTest := countTest c - (if ptype e = etTest then 1 else 0)\<rparr>)"
  by (cases "ptype e") (simp_all add: metaEvict_def)

lemma inv_blocks_ring: "shard_inv c \<Longrightarrow> blocks c k = Some e \<Longrightarrow> k \<in> set (ring c)"
  by (auto simp: shard_inv_def ring_ok_def)

lemma inv_entry: "shard_inv c \<Longrightarrow> blocks c k = Some e \<Longrightarrow> entry_ok k e"
  by (force simp: shard_inv_def ring_ok_def entries_ok_def)

lemma inv_key: "shard_inv c \<Longrightarrow> blocks c k = Some e \<Longrightarrow> key e = k"
  using inv_entry by (auto simp: entry_ok_def)

lemma removed_inv:
  assumes inv: "shard_inv c" and b: "blocks c k = Some e"
    and c': "blocks c' = (blocks c)(k := None)" "ring c' = remove1 k (ring c)"
      "handHot c' = hand_del k (ring c) (handHot c)"
      "handCold c' = hand_del k (ring c) (handCold c)"
      "handTest c' = hand_del k (ring c) (handTest c)"
      "fileRings c' = (fileRings c)(file_k k := remove1 k (fileRings c (file_k k)))"
      "files c' = (if ring_next k (fileRings c (file_k k)) = k
                   then (files c)(file_k k := None)
                   else (files c)(file_k k \<mapsto> ring_next k (fileRings c (file_k k))))"
      "sizeHot c' = sizeHot c - wt etHot (blocks c) k"
      "sizeCold c' = sizeCold c - wt etCold (blocks c) k"
      "sizeTest c' = sizeTest c - wt etTest (blocks c) k"
      "countHot c' = countHot c - cnt etHot (blocks c) k"
      "countCold c' = countCold c - cnt etCold (blocks c) k"
      "countTest c' = countTest c - cnt etTest (blocks c) k"
      "target_ok c'"
  shows "shard_inv c'"
proof -
  have d: "distinct (ring c)" and dom: "dom (blocks c) = set (ring c)"
    using inv by (auto simp: shard_inv_def ring_ok_def)
  have kin: "k \<in> set (ring c)" using inv b by (rule inv_blocks_ring)
  have nin: "k \<notin> set (remove1 k (ring c))" using d by simp
  have 1: "entries_ok c'"
    using inv d c'(1,2) by (auto simp: shard_inv_def entries_ok_def)
  have 2: "ring_ok c'"
    using d dom c'(1,2) by (auto simp: ring_ok_def)
  have 3: "hands_ok c'"
    using inv c'(2-5) hand_del_in[OF d kin] by (simp add: shard_inv_def hands_ok_def)
  have tot: "sum_list (map (f(k := 0)) (remove1 k (ring c))) = sum_list (map f (ring c)) - f k"
    for f :: "key \<Rightarrow> int"
    using nin kin by (simp add: sum_list_upd_out sum_list_remove1_int)
  have 4: "counters_ok c'"
    using inv c'(1,2,8-13) tot
    by (simp add: shard_inv_def counters_ok_def totalSize_def totalCount_def wt_upd cnt_upd)
  have fr: "files_ok c" using inv by (simp add: shard_inv_def)
  have kf: "k \<in> set (fileRings c (file_k k))" and df: "distinct (fileRings c (file_k k))"
    using fr kin by (auto simp: files_ok_def)
  have 5: "files_ok c'"
    unfolding files_ok_def
  proof (intro allI conjI)
    fix fk
    show "distinct (fileRings c' fk)" using fr c'(6) by (auto simp: files_ok_def)
    show "set (fileRings c' fk) = {x \<in> set (ring c'). file_k x = fk}"
      using fr c'(6,2) d df by (auto simp: files_ok_def)
    show "hand_in (files c' fk) (fileRings c' fk)"
    proof (cases "fk = file_k k")
      case True
      then show ?thesis using head_del_in[OF df kf] c'(6,7) by (auto split: if_splits)
    next
      case False
      then show ?thesis using fr c'(6,7) by (auto simp: files_ok_def)
    qed
  qed
  show ?thesis using 1 2 3 4 5 c'(14) by (simp add: shard_inv_def)
qed

lemma inv_target: "shard_inv c \<Longrightarrow> 0 \<le> coldTarget c \<and> coldTarget c \<le> targetSize c"
  by (simp add: shard_inv_def target_ok_def)

lemma metaEvict_inv:
  assumes "shard_inv c" "blocks c k = Some e"
  shows "shard_inv (snd (metaEvict e c))"
proof -
  have k: "key e = k" using assms by (rule inv_key)
  show ?thesis
    using inv_target[OF assms(1)]
    by (intro removed_inv[OF assms])
       (simp_all add: metaEvict_eq k wt_def cnt_def assms(2) target_ok_def targetSize_def)
qed

section \<open>What a sweep may change\<close>

lemma evolves_refl: "evolves c c"
  by (auto simp: evolves_def split: option.splits)

lemma evolves_trans:
  assumes "evolves a b" "evolves b c"
  shows "evolves a c"
proof -
  have blk: "\<And>k. case blocks c k of None \<Rightarrow> True
              | Some e' \<Rightarrow> (case blocks a k of None \<Rightarrow> False
                            | Some e \<Rightarrow> size_e e' = size_e e \<and> (val e' = val e \<or> val e' = None))"
  proof -
    fix k
    have 1: "case blocks c k of None \<Rightarrow> True
              | Some e' \<Rightarrow> (case blocks b k of None \<Rightarrow> False
                            | Some e \<Rightarrow> size_e e' = size_e e \<and> (val e' = val e \<or> val e' = None))"
      using assms(2) by (simp add: evolves_def)
    have 2: "case blocks b k of None \<Rightarrow> True
              | Some e' \<Rightarrow> (case blocks a k of None \<Rightarrow> False
                            | Some e \<Rightarrow> size_e e' = size_e e \<and> (val e' = val e \<or> val e' = None))"
      using assms(1) by (simp add: evolves_def)
    show "case blocks c k of None \<Rightarrow> True
              | Some e' \<Rightarrow> (case blocks a k of None \<Rightarrow> False
                            | Some e \<Rightarrow> size_e e' = size_e e \<and> (val e' = val e \<or> val e' = None))"
      using 1 2 by (auto split: option.splits)
  qed
  have vm: "\<And>p. vmem c p = vmem a p
              \<or> (\<exists>k e. blocks a k = Some e \<and> val e = Some p
                    \<and> (case blocks c k of None \<Rightarrow> True | Some e' \<Rightarrow> val e' = None))"
  proof -
    fix p
    have 1: "vmem c p = vmem b p
              \<or> (\<exists>k e. blocks b k = Some e \<and> val e = Some p
                    \<and> (case blocks c k of None \<Rightarrow> True | Some e' \<Rightarrow> val e' = None))"
      using assms(2) by (simp add: evolves_def)
    have 2: "vmem b p = vmem a p
              \<or> (\<exists>k e. blocks a k = Some e \<and> val e = Some p
                    \<and> (case blocks b k of None \<Rightarrow> True | Some e' \<Rightarrow> val e' = None))"
      using assms(1) by (simp add: evolves_def)
    have bb: "\<And>k. case blocks b k of None \<Rightarrow> True
              | Some e' \<Rightarrow> (case blocks a k of None \<Rightarrow> False
                            | Some e \<Rightarrow> size_e e' = size_e e \<and> (val e' = val e \<or> val e' = None))"
      using assms(1) by (simp add: evolves_def)
    have cb: "\<And>k. case blocks c k of None \<Rightarrow> True
              | Some e' \<Rightarrow> (case blocks b k of None \<Rightarrow> False
                            | Some e \<Rightarrow> size_e e' = size_e e \<and> (val e' = val e \<or> val e' = None))"
      using assms(2) by (simp add: evolves_def)
    from 2 show "vmem c p = vmem a p
              \<or> (\<exists>k e. blocks a k = Some e \<and> val e = Some p
                    \<and> (case blocks c k of None \<Rightarrow> True | Some e' \<Rightarrow> val e' = None))"
    proof
      assume eq: "vmem b p = vmem a p"
      from 1 show ?thesis
      proof
        assume "vmem c p = vmem b p" then show ?thesis using eq by simp
      next
        assume "\<exists>k e. blocks b k = Some e \<and> val e = Some p
                    \<and> (case blocks c k of None \<Rightarrow> True | Some e' \<Rightarrow> val e' = None)"
        then obtain k e where ke: "blocks b k = Some e" "val e = Some p"
          "case blocks c k of None \<Rightarrow> True | Some e' \<Rightarrow> val e' = None" by blast
        then obtain e0 where "blocks a k = Some e0" "val e0 = Some p"
          using bb[of k] by (auto split: option.splits)
        then show ?thesis using ke(3) by blast
      qed
    next
      assume "\<exists>k e. blocks a k = Some e \<and> val e = Some p
                    \<and> (case blocks b k of None \<Rightarrow> True | Some e' \<Rightarrow> val e' = None)"
      then obtain k e where ke: "blocks a k = Some e" "val e = Some p"
          "case blocks b k of None \<Rightarrow> True | Some e' \<Rightarrow> val e' = None" by blast
      have "case blocks c k of None \<Rightarrow> True | Some e' \<Rightarrow> val e' = None"
        using ke(3) cb[of k] by (auto split: option.splits)
      then show ?thesis using ke(1,2) by blast
    qed
  qed
  show ?thesis
    using assms blk vm unfolding evolves_def by (intro conjI allI) auto
qed

lemma okstep_trans: "okstep a b \<Longrightarrow> okstep b c \<Longrightarrow> okstep a c"
  using evolves_trans by (auto simp: okstep_def)

lemma okstep_refl: "shard_inv c \<Longrightarrow> okstep c c"
  by (simp add: okstep_def evolves_refl)

lemma release_other: "release x m q = m q \<or> x = Some q"
  by (auto simp: release_def split: option.splits)

lemma updated_inv:
  assumes inv: "shard_inv c" and b: "blocks c k = Some e"
    and c': "blocks c' = (blocks c)(k \<mapsto> e')" "entry_ok k e'" "ring c' = ring c"
      "hand_in (handHot c') (ring c)" "hand_in (handCold c') (ring c)"
      "hand_in (handTest c') (ring c)"
      "fileRings c' = fileRings c" "files c' = files c"
      "sizeHot c' = sizeHot c - wt etHot (blocks c) k + (if ptype e' = etHot then size_e e' else 0)"
      "sizeCold c' = sizeCold c - wt etCold (blocks c) k + (if ptype e' = etCold then size_e e' else 0)"
      "sizeTest c' = sizeTest c - wt etTest (blocks c) k + (if ptype e' = etTest then size_e e' else 0)"
      "countHot c' = countHot c - cnt etHot (blocks c) k + (if ptype e' = etHot then 1 else 0)"
      "countCold c' = countCold c - cnt etCold (blocks c) k + (if ptype e' = etCold then 1 else 0)"
      "countTest c' = countTest c - cnt etTest (blocks c) k + (if ptype e' = etTest then 1 else 0)"
      "target_ok c'"
  shows "shard_inv c'"
proof -
  have d: "distinct (ring c)" and dom: "dom (blocks c) = set (ring c)"
    using inv by (auto simp: shard_inv_def ring_ok_def)
  have kin: "k \<in> set (ring c)" using inv b by (rule inv_blocks_ring)
  have 1: "entries_ok c'"
    using inv c'(1,2,3) by (auto simp: shard_inv_def entries_ok_def)
  have 2: "ring_ok c'"
    using d dom c'(1,3) kin by (auto simp: ring_ok_def)
  have 3: "hands_ok c'"
    using c'(3-6) by (simp add: hands_ok_def)
  have 4: "counters_ok c'"
    using inv c'(1,3,9-14) d kin
    by (simp add: shard_inv_def counters_ok_def totalSize_def totalCount_def wt_upd cnt_upd
        sum_list_upd_in)
  have 5: "files_ok c'"
    using inv c'(3,7,8) by (simp add: shard_inv_def files_ok_def)
  show ?thesis using 1 2 3 4 5 c'(15) by (simp add: shard_inv_def)
qed

lemma hands_inv:
  assumes inv: "shard_inv c"
    and c': "blocks c' = blocks c" "ring c' = ring c"
      "hand_in (handHot c') (ring c)" "hand_in (handCold c') (ring c)"
      "hand_in (handTest c') (ring c)"
      "fileRings c' = fileRings c" "files c' = files c"
      "sizeHot c' = sizeHot c" "sizeCold c' = sizeCold c" "sizeTest c' = sizeTest c"
      "countHot c' = countHot c" "countCold c' = countCold c" "countTest c' = countTest c"
      "target_ok c'"
  shows "shard_inv c'"
  using assms
  by (simp add: shard_inv_def entries_ok_def ring_ok_def hands_ok_def counters_ok_def
      files_ok_def totalSize_def totalCount_def)

lemma inv_hands:
  "shard_inv c \<Longrightarrow> hand_in (handHot c) (ring c) \<and> hand_in (handCold c) (ring c)
     \<and> hand_in (handTest c) (ring c)"
  by (simp add: shard_inv_def hands_ok_def)

section \<open>Single steps of the hands\<close>

lemma next_e_in: "hand_in h (ring c) \<Longrightarrow> hand_in (next_e h c) (ring c)"
  by (cases h) (auto simp: next_e_def ring_next_in)

lemma targetSize_cong:
  "maxSize c' = maxSize c \<Longrightarrow> reservedSize c' = reservedSize c \<Longrightarrow> targetSize c' = targetSize c"
  by (simp add: targetSize_def)

lemma evolves_target: "evolves c c' \<Longrightarrow> targetSize c' = targetSize c"
  by (simp add: evolves_def targetSize_def)

lemma evolves_same:
  assumes "blocks c' = blocks c" "vmem c' = vmem c" "maxSize c' = maxSize c"
    "reservedSize c' = reservedSize c" "hits c' = hits c" "misses c' = misses c"
    "coldTarget c' \<le> coldTarget c"
  shows "evolves c c'"
  using assms by (auto simp: evolves_def split: option.splits)

lemma evolves_upd:
  assumes "blocks c k = Some e" "blocks c' = (blocks c)(k \<mapsto> e')"
    "size_e e' = size_e e" "val e' = val e \<or> val e' = None"
    "vmem c' = vmem c \<or> (vmem c' = release (val e) (vmem c) \<and> val e' = None)"
    "maxSize c' = maxSize c"
    "reservedSize c' = reservedSize c" "hits c' = hits c" "misses c' = misses c"
    "coldTarget c' \<le> coldTarget c"
  shows "evolves c c'"
proof -
  have vm: "vmem c' p = vmem c p
              \<or> (\<exists>k e. blocks c k = Some e \<and> val e = Some p
                    \<and> (case blocks c' k of None \<Rightarrow> True | Some e' \<Rightarrow> val e' = None))" for p
    using assms(5)
  proof
    assume "vmem c' = vmem c" then show ?thesis by simp
  next
    assume a: "vmem c' = release (val e) (vmem c) \<and> val e' = None"
    show ?thesis
      using release_other[of "val e" "vmem c" p]
    proof
      assume "release (val e) (vmem c) p = vmem c p" then show ?thesis using a by simp
    next
      assume "val e = Some p"
      then have "blocks c k = Some e \<and> val e = Some p
                    \<and> (case blocks c' k of None \<Rightarrow> True | Some e' \<Rightarrow> val e' = None)"
        using assms(1,2) a by simp
      then show ?thesis by blast
    qed
  qed
  have blk: "case blocks c' j of None \<Rightarrow> True
              | Some e' \<Rightarrow> (case blocks c j of None \<Rightarrow> False
                            | Some e \<Rightarrow> size_e e' = size_e e \<and> (val e' = val e \<or> val e' = None))" for j
    using assms(1-4) by (cases "j = k") (auto split: option.splits)
  show ?thesis unfolding evolves_def using assms(6-10) vm blk by blast
qed

lemma evolves_del:
  assumes "blocks c k = Some e" "blocks c' = (blocks c)(k := None)"
    "vmem c' = vmem c \<or> vmem c' = release (val e) (vmem c)"
    "maxSize c' = maxSize c"
    "reservedSize c' = reservedSize c" "hits c' = hits c" "misses c' = misses c"
    "coldTarget c' \<le> coldTarget c"
  shows "evolves c c'"
proof -
  have vm: "vmem c' p = vmem c p
              \<or> (\<exists>k e. blocks c k = Some e \<and> val e = Some p
                    \<and> (case blocks c' k of None \<Rightarrow> True | Some e' \<Rightarrow> val e' = None))" for p
    using assms(3)
  proof
    assume "vmem c' = vmem c" then show ?thesis by simp
  next
    assume a: "vmem c' = release (val e) (vmem c)"
    show ?thesis
      using release_other[of "val e" "vmem c" p]
    proof
      assume "release (val e) (vmem c) p = vmem c p" then show ?thesis using a by simp
    next
      assume "val e = Some p"
      then have "blocks c k = Some e \<and> val e = Some p
                    \<and> (case blocks c' k of None \<Rightarrow> True | Some e' \<Rightarrow> val e' = None)"
        using assms(1,2) a by simp
      then show ?thesis by blast
    qed
  qed
  have blk: "case blocks c' j of None \<Rightarrow> True
              | Some e' \<Rightarrow> (case blocks c j of None \<Rightarrow> False
                            | Some e \<Rightarrow> size_e e' = size_e e \<and> (val e' = val e \<or> val e' = None))" for j
    using assms(1,2) by (cases "j = k") (auto split: option.splits)
  show ?thesis unfolding evolves_def using assms(4-8) vm blk by blast
qed

lemma inv_target_ok: "shard_inv c \<Longrightarrow> target_ok c"
  by (simp add: shard_inv_def)

lemma target_ok_cong:
  "target_ok c \<Longrightarrow> maxSize c' = maxSize c \<Longrightarrow> reservedSize c' = reservedSize c
   \<Longrightarrow> coldTarget c' = coldTarget c \<Longrightarrow> target_ok c'"
  by (simp add: target_ok_def targetSize_def)

lemma advance_handHot:
  assumes "shard_inv c"
  shows "okstep c (c\<lparr>handHot := next_e (handHot c) c\<rparr>)"
  unfolding okstep_def
proof
  show "shard_inv (c\<lparr>handHot := next_e (handHot c) c\<rparr>)"
    using inv_hands[OF assms] next_e_in[of "handHot c" c] target_ok_cong[OF inv_target_ok[OF assms]]
    by (intro hands_inv[OF assms]) simp_all
  show "evolves c (c\<lparr>handHot := next_e (handHot c) c\<rparr>)" by (rule evolves_same) simp_all
qed

lemma advance_handCold:
  assumes "shard_inv c"
  shows "okstep c (c\<lparr>handCold := next_e (handCold c) c\<rparr>)"
  unfolding okstep_def
proof
  show "shard_inv (c\<lparr>handCold := next_e (handCold c) c\<rparr>)"
    using inv_hands[OF assms] next_e_in[of "handCold c" c] target_ok_cong[OF inv_target_ok[OF assms]]
    by (intro hands_inv[OF assms]) simp_all
  show "evolves c (c\<lparr>handCold := next_e (handCold c) c\<rparr>)" by (rule evolves_same) simp_all
qed

lemma advance_handTest:
  assumes "shard_inv c"
  shows "okstep c (c\<lparr>handTest := next_e (handTest c) c\<rparr>)"
  unfolding okstep_def
proof
  show "shard_inv (c\<lparr>handTest := next_e (handTest c) c\<rparr>)"
    using inv_hands[OF assms] next_e_in[of "handTest c" c] target_ok_cong[OF inv_target_ok[OF assms]]
    by (intro hands_inv[OF assms]) simp_all
  show "evolves c (c\<lparr>handTest := next_e (handTest c) c\<rparr>)" by (rule evolves_same) simp_all
qed

lemma coldToHot_ok:
  assumes inv: "shard_inv c" and b: "blocks c k = Some e" and t: "ptype e = etCold"
  shows "okstep c (coldToHot k e c)"
  unfolding okstep_def
proof
  have eo: "entry_ok k e" using inv b by (rule inv_entry)
  show "shard_inv (coldToHot k e c)"
    using inv_hands[OF inv] eo t target_ok_cong[OF inv_target_ok[OF inv]]
    by (intro updated_inv[OF inv b, where e' = "e\<lparr>referenced := False, ptype := etHot\<rparr>"])
       (simp_all add: coldToHot_def wt_def cnt_def b entry_ok_def)
  show "evolves c (coldToHot k e c)"
    by (rule evolves_upd[OF b, where e' = "e\<lparr>referenced := False, ptype := etHot\<rparr>"])
       (simp_all add: coldToHot_def)
qed

lemma coldToTest_ok:
  assumes inv: "shard_inv c" and b: "blocks c k = Some e" and t: "ptype e = etCold"
  shows "okstep c (coldToTest k e c)"
  unfolding okstep_def
proof
  have eo: "entry_ok k e" using inv b by (rule inv_entry)
  show "shard_inv (coldToTest k e c)"
    using inv_hands[OF inv] eo t target_ok_cong[OF inv_target_ok[OF inv]]
    by (intro updated_inv[OF inv b, where e' = "e\<lparr>val := None, ptype := etTest\<rparr>"])
       (simp_all add: coldToTest_def setValue_def wt_def cnt_def b entry_ok_def)
  show "evolves c (coldToTest k e c)"
    by (rule evolves_upd[OF b, where e' = "e\<lparr>val := None, ptype := etTest\<rparr>"])
       (simp_all add: coldToTest_def setValue_def)
qed

section \<open>The eviction sweep keeps the shard well formed\<close>

lemma andThen_Inr: "(andThen r f = Inr y) = (\<exists>x. r = Inr x \<and> f x = Inr y)"
  by (cases r) (auto simp: andThen_def)

lemma hotStep_ok:
  assumes inv: "shard_inv c" and h: "hotStep c = Inr c'"
  shows "okstep c c'"
proof -
  obtain k where hk: "handHot c = Some k"
    using h by (auto simp: hotStep_def split: option.splits)
  obtain e where b: "blocks c k = Some e"
    using h hk by (auto simp: hotStep_def split: option.splits)
  define c1 where "c1 =
     (if ptype e = etHot then
        (if referenced e then c\<lparr>blocks := (blocks c)(k \<mapsto> e\<lparr>referenced := False\<rparr>)\<rparr>
         else c\<lparr>blocks := (blocks c)(k \<mapsto> e\<lparr>ptype := etCold\<rparr>),
                sizeHot := sizeHot c - size_e e, countHot := countHot c - 1,
                sizeCold := sizeCold c + size_e e, countCold := countCold c + 1\<rparr>)
      else c)"
  have c': "c' = c1\<lparr>handHot := next_e (handHot c1) c1\<rparr>"
    using h hk b unfolding hotStep_def c1_def by (simp add: Let_def)
  have eo: "entry_ok k e" using inv b by (rule inv_entry)
  have 1: "okstep c c1"
  proof (cases "ptype e = etHot")
    case False
    then show ?thesis using inv by (simp add: c1_def okstep_refl)
  next
    case True
    show ?thesis
    proof (cases "referenced e")
      case True
      have eq: "c1 = c\<lparr>blocks := (blocks c)(k \<mapsto> e\<lparr>referenced := False\<rparr>)\<rparr>"
        using True \<open>ptype e = etHot\<close> by (simp add: c1_def)
      have "shard_inv c1"
        using inv_hands[OF inv] eo target_ok_cong[OF inv_target_ok[OF inv]]
        by (intro updated_inv[OF inv b, where e' = "e\<lparr>referenced := False\<rparr>"])
           (simp_all add: eq wt_def cnt_def b entry_ok_def)
      moreover have "evolves c c1"
        by (rule evolves_upd[OF b, where e' = "e\<lparr>referenced := False\<rparr>"]) (simp_all add: eq)
      ultimately show ?thesis by (simp add: okstep_def)
    next
      case False
      have eq: "c1 = c\<lparr>blocks := (blocks c)(k \<mapsto> e\<lparr>ptype := etCold\<rparr>),
                sizeHot := sizeHot c - size_e e, countHot := countHot c - 1,
                sizeCold := sizeCold c + size_e e, countCold := countCold c + 1\<rparr>"
        using False \<open>ptype e = etHot\<close> by (simp add: c1_def)
      have "shard_inv c1"
        using inv_hands[OF inv] eo \<open>ptype e = etHot\<close> target_ok_cong[OF inv_target_ok[OF inv]]
        by (intro updated_inv[OF inv b, where e' = "e\<lparr>ptype := etCold\<rparr>"])
           (simp_all add: eq wt_def cnt_def b entry_ok_def)
      moreover have "evolves c c1"
        by (rule evolves_upd[OF b, where e' = "e\<lparr>ptype := etCold\<rparr>"]) (simp_all add: eq)
      ultimately show ?thesis by (simp add: okstep_def)
    qed
  qed
  then have "shard_inv c1" by (simp add: okstep_def)
  then have "okstep c1 c'" unfolding c' by (rule advance_handHot)
  with 1 show ?thesis by (rule okstep_trans)
qed

lemma testStep_ok:
  assumes inv: "shard_inv c" and h: "testStep c = Inr c'"
  shows "okstep c c'"
proof -
  obtain k where hk: "handTest c = Some k"
    using h by (auto simp: testStep_def split: option.splits)
  obtain e where b: "blocks c k = Some e"
    using h hk by (auto simp: testStep_def split: option.splits)
  define c2 where "c2 = c\<lparr>sizeTest := sizeTest c - size_e e, countTest := countTest c - 1,
                           coldTarget := (if coldTarget c - size_e e < 0 then 0
                                          else coldTarget c - size_e e)\<rparr>"
  define c1 where "c1 =
     (if ptype e = etTest then (snd (metaDel e c2))\<lparr>vmem := release (val e) (vmem c)\<rparr> else c)"
  have "testStep c = Inr (c1\<lparr>handTest := next_e (handTest c1) c1\<rparr>)"
    unfolding testStep_def c1_def c2_def using hk b
    by (cases "ptype e = etTest") (simp_all add: Let_def case_prod_beta)
  then have c': "c' = c1\<lparr>handTest := next_e (handTest c1) c1\<rparr>"
    using h by simp
  have eo: "entry_ok k e" using inv b by (rule inv_entry)
  then have ke: "key e = k" and sz: "0 \<le> size_e e" by (auto simp: entry_ok_def)
  have 1: "okstep c c1"
  proof (cases "ptype e = etTest")
    case False
    then show ?thesis using inv by (simp add: c1_def okstep_refl)
  next
    case True
    have eq: "c1 = (snd (metaDel e c2))\<lparr>vmem := release (val e) (vmem c)\<rparr>"
      using True by (simp add: c1_def)
    have "shard_inv c1"
      using inv_target[OF inv] sz
      by (intro removed_inv[OF inv b])
         (simp_all add: eq c2_def ke wt_def cnt_def b True target_ok_def targetSize_def)
    moreover have "evolves c c1"
      using sz inv_target[OF inv] by (intro evolves_del[OF b]) (simp_all add: eq c2_def ke)
    ultimately show ?thesis by (simp add: okstep_def)
  qed
  then have "shard_inv c1" by (simp add: okstep_def)
  then have "okstep c1 c'" unfolding c' by (rule advance_handTest)
  with 1 show ?thesis by (rule okstep_trans)
qed

lemma okstep_inv: "okstep c c' \<Longrightarrow> shard_inv c'"
  by (simp add: okstep_def)

lemma sweep_ok:
  "(\<forall>c c'. shard_inv c \<longrightarrow> evict n c = Inr c' \<longrightarrow> okstep c c')
   \<and> (\<forall>c c' a b. shard_inv c \<longrightarrow> runHandCold n a b c = Inr c' \<longrightarrow> okstep c c')
   \<and> (\<forall>c c'. shard_inv c \<longrightarrow> testLoop n c = Inr c' \<longrightarrow> okstep c c')
   \<and> (\<forall>c c'. shard_inv c \<longrightarrow> hotLoop n c = Inr c' \<longrightarrow> okstep c c')
   \<and> (\<forall>c c'. shard_inv c \<longrightarrow> runHandHot n c = Inr c' \<longrightarrow> okstep c c')
   \<and> (\<forall>c c'. shard_inv c \<longrightarrow> runHandTest n c = Inr c' \<longrightarrow> okstep c c')"
proof (induction n)
  case 0
  show ?case by simp
next
  case (Suc n)
  have ihE: "\<And>c c'. shard_inv c \<Longrightarrow> evict n c = Inr c' \<Longrightarrow> okstep c c'"
    and ihC: "\<And>c c' a b. shard_inv c \<Longrightarrow> runHandCold n a b c = Inr c' \<Longrightarrow> okstep c c'"
    and ihTL: "\<And>c c'. shard_inv c \<Longrightarrow> testLoop n c = Inr c' \<Longrightarrow> okstep c c'"
    and ihHL: "\<And>c c'. shard_inv c \<Longrightarrow> hotLoop n c = Inr c' \<Longrightarrow> okstep c c'"
    and ihH: "\<And>c c'. shard_inv c \<Longrightarrow> runHandHot n c = Inr c' \<Longrightarrow> okstep c c'"
    and ihT: "\<And>c c'. shard_inv c \<Longrightarrow> runHandTest n c = Inr c' \<Longrightarrow> okstep c c'"
    using Suc.IH by blast+
  have E: "okstep c c'" if inv: "shard_inv c" and r: "evict (Suc n) c = Inr c'" for c c'
  proof (cases "targetSize c \<le> sizeHot c + sizeCold c \<and> handCold c \<noteq> None")
    case True
    then obtain c1 where 1: "runHandCold n (countCold c) (sizeCold c) c = Inr c1"
      and 2: "evict n c1 = Inr c'" using r by (auto simp: andThen_Inr)
    have a: "okstep c c1" using inv 1 by (rule ihC)
    have "okstep c1 c'" using okstep_inv[OF a] 2 by (rule ihE)
    with a show ?thesis by (rule okstep_trans)
  next
    case False
    then show ?thesis using r inv by (auto simp: okstep_refl)
  qed
  have TL: "okstep c c'" if inv: "shard_inv c" and r: "testLoop (Suc n) c = Inr c'" for c c'
  proof (cases "targetSize c < sizeTest c \<and> handTest c \<noteq> None")
    case True
    then obtain c1 where 1: "runHandTest n c = Inr c1"
      and 2: "testLoop n c1 = Inr c'" using r by (auto simp: andThen_Inr)
    have a: "okstep c c1" using inv 1 by (rule ihT)
    have "okstep c1 c'" using okstep_inv[OF a] 2 by (rule ihTL)
    with a show ?thesis by (rule okstep_trans)
  next
    case False
    then show ?thesis using r inv by (auto simp: okstep_refl)
  qed
  have HL: "okstep c c'" if inv: "shard_inv c" and r: "hotLoop (Suc n) c = Inr c'" for c c'
  proof (cases "targetSize c - coldTarget c \<le> sizeHot c \<and> handHot c \<noteq> None")
    case True
    then obtain c1 where 1: "runHandHot n c = Inr c1"
      and 2: "hotLoop n c1 = Inr c'" using r by (auto simp: andThen_Inr)
    have a: "okstep c c1" using inv 1 by (rule ihH)
    have "okstep c1 c'" using okstep_inv[OF a] 2 by (rule ihHL)
    with a show ?thesis by (rule okstep_trans)
  next
    case False
    then show ?thesis using r inv by (auto simp: okstep_refl)
  qed
  have H: "okstep c c'" if inv: "shard_inv c" and r: "runHandHot (Suc n) c = Inr c'" for c c'
  proof (cases "handHot c = handTest c \<and> handTest c \<noteq> None")
    case True
    then obtain c1 where 1: "runHandTest n c = Inr c1"
      and 2: "(if handHot c1 = None then Inr c1 else hotStep c1) = Inr c'"
      using r by (auto simp: andThen_Inr)
    have a: "okstep c c1" using inv 1 by (rule ihT)
    have "okstep c1 c'"
      using 2 okstep_inv[OF a] by (auto simp: okstep_refl hotStep_ok split: if_splits)
    with a show ?thesis by (rule okstep_trans)
  next
    case False
    then have "hotStep c = Inr c'" using r by auto
    with inv show ?thesis by (rule hotStep_ok)
  qed
  have T: "okstep c c'" if inv: "shard_inv c" and r: "runHandTest (Suc n) c = Inr c'" for c c'
  proof (cases "sizeCold c > 0 \<and> handTest c = handCold c \<and> handCold c \<noteq> None")
    case True
    then obtain c1 where 1: "runHandCold n (countCold c) (sizeCold c) c = Inr c1"
      and 2: "(if handTest c1 = None then Inr c1 else testStep c1) = Inr c'"
      using r by (auto simp: andThen_Inr split: if_splits)
    have a: "okstep c c1" using inv 1 by (rule ihC)
    have "okstep c1 c'"
      using 2 okstep_inv[OF a] by (auto simp: okstep_refl testStep_ok split: if_splits)
    with a show ?thesis by (rule okstep_trans)
  next
    case False
    then have "testStep c = Inr c'" using r by auto
    with inv show ?thesis by (rule testStep_ok)
  qed
  have C: "okstep c c'" if inv: "shard_inv c" and r: "runHandCold (Suc n) a b c = Inr c'"
    for c c' a b
  proof -
    obtain k where hk: "handCold c = Some k"
      using r by (auto split: option.splits if_splits)
    obtain e where b: "blocks c k = Some e"
      using r hk by (auto split: option.splits if_splits)
    obtain c1 where 1: "(if ptype e = etCold then
                   (if referenced e then Inr (coldToHot k e c)
                    else testLoop n (coldToTest k e c))
                 else Inr c) = Inr c1"
      and 2: "hotLoop n (c1\<lparr>handCold := next_e (handCold c1) c1\<rparr>) = Inr c'"
      using r hk b by (auto simp: andThen_Inr split: if_splits)
    have a: "okstep c c1"
    proof (cases "ptype e = etCold")
      case False
      then show ?thesis using 1 inv by (auto simp: okstep_refl)
    next
      case True
      show ?thesis
      proof (cases "referenced e")
        case True
        then show ?thesis using 1 \<open>ptype e = etCold\<close> coldToHot_ok[OF inv b] by auto
      next
        case False
        then have t: "testLoop n (coldToTest k e c) = Inr c1" using 1 True by simp
        have x: "okstep c (coldToTest k e c)" using inv b True by (rule coldToTest_ok)
        have "okstep (coldToTest k e c) c1" using okstep_inv[OF x] t by (rule ihTL)
        with x show ?thesis by (rule okstep_trans)
      qed
    qed
    have x: "okstep c1 (c1\<lparr>handCold := next_e (handCold c1) c1\<rparr>)"
      using okstep_inv[OF a] by (rule advance_handCold)
    have "okstep (c1\<lparr>handCold := next_e (handCold c1) c1\<rparr>) c'"
      using okstep_inv[OF x] 2 by (rule ihHL)
    with okstep_trans[OF a x] show ?thesis by (rule okstep_trans)
  qed
  show ?case using E C TL HL H T by blast
qed

section \<open>Linking an entry keeps the shard well formed\<close>

lemma ring_link_Nil [simp]: "ring_link h k [] = [k]"
  by (simp add: ring_link_def)

lemma inv_vmem [simp]: "shard_inv (c\<lparr>vmem := m\<rparr>) = shard_inv c"
  by (simp add: shard_inv_def entries_ok_def ring_ok_def hands_ok_def counters_ok_def
      files_ok_def target_ok_def totalSize_def totalCount_def targetSize_def)

lemma evolves_blocks_None: "evolves c c' \<Longrightarrow> blocks c k = None \<Longrightarrow> blocks c' k = None"
  unfolding evolves_def
proof -
  assume a: "maxSize c' = maxSize c \<and> reservedSize c' = reservedSize c
      \<and> hits c' = hits c \<and> misses c' = misses c \<and> coldTarget c' \<le> coldTarget c
      \<and> (\<forall>k. case blocks c' k of None \<Rightarrow> True
              | Some e' \<Rightarrow> (case blocks c k of None \<Rightarrow> False
                            | Some e \<Rightarrow> size_e e' = size_e e \<and> (val e' = val e \<or> val e' = None)))
      \<and> (\<forall>p. vmem c' p = vmem c p
              \<or> (\<exists>k e. blocks c k = Some e \<and> val e = Some p
                    \<and> (case blocks c' k of None \<Rightarrow> True | Some e' \<Rightarrow> val e' = None)))"
    and b: "blocks c k = None"
  from a have "case blocks c' k of None \<Rightarrow> True
              | Some e' \<Rightarrow> (case blocks c k of None \<Rightarrow> False
                            | Some e \<Rightarrow> size_e e' = size_e e \<and> (val e' = val e \<or> val e' = None))"
    by blast
  then show "blocks c' k = None" using b by (auto split: option.splits)
qed

lemma linkEntry_fields:
  "blocks (linkEntry k e c) = (blocks c)(k \<mapsto> e)"
  "ring (linkEntry k e c) =
     (case handHot c of None \<Rightarrow> [key e] | Some h \<Rightarrow> ring_link h (key e) (ring c))"
  "handHot (linkEntry k e c) = (case handHot c of None \<Rightarrow> Some (key e) | Some h \<Rightarrow> Some h)"
  "handTest (linkEntry k e c) = (case handHot c of None \<Rightarrow> Some (key e) | Some h \<Rightarrow> handTest c)"
  "fileRings (linkEntry k e c) =
     (case files c (file_k k) of
        None \<Rightarrow> (fileRings c)(file_k k := [key e])
      | Some fb \<Rightarrow> (fileRings c)(file_k fb := ring_link fb (key e) (fileRings c (file_k fb))))"
  "files (linkEntry k e c) =
     (case files c (file_k k) of None \<Rightarrow> (files c)(file_k k \<mapsto> key e) | Some fb \<Rightarrow> files c)"
  "sizeHot (linkEntry k e c) = sizeHot c" "sizeCold (linkEntry k e c) = sizeCold c"
  "sizeTest (linkEntry k e c) = sizeTest c" "countHot (linkEntry k e c) = countHot c"
  "countCold (linkEntry k e c) = countCold c" "countTest (linkEntry k e c) = countTest c"
  "coldTarget (linkEntry k e c) = coldTarget c" "maxSize (linkEntry k e c) = maxSize c"
  "reservedSize (linkEntry k e c) = reservedSize c" "vmem (linkEntry k e c) = vmem c"
  "hits (linkEntry k e c) = hits c" "misses (linkEntry k e c) = misses c"
  by (cases "handHot c"; cases "files c (file_k k)";
      simp add: linkEntry_def Let_def link_def linkFile_def)+

lemma linkEntry_handCold:
  "handCold (linkEntry k e c) =
     (case handHot c of None \<Rightarrow> Some (ring_prev (key e) [key e])
      | Some h \<Rightarrow> if handCold c = Some h
                  then prev_e (handCold c) (c\<lparr>ring := ring_link h (key e) (ring c)\<rparr>)
                  else handCold c)"
  by (cases "handHot c"; cases "files c (file_k k)";
      simp add: linkEntry_def Let_def link_def linkFile_def prev_e_def)

lemma targetSize_linkEntry [simp]: "targetSize (linkEntry k e c) = targetSize c"
  by (simp add: targetSize_def linkEntry_fields)

lemma inserted_inv:
  assumes inv: "shard_inv c" and b: "blocks c k = None" and eo: "entry_ok k e"
    and c': "blocks c' = (blocks c)(k \<mapsto> e)" "ring c' = ring_link h k (ring c)"
      "hand_in (handHot c') (ring c')" "hand_in (handCold c') (ring c')"
      "hand_in (handTest c') (ring c')"
      "fileRings c' = (fileRings c)(file_k k := ring_link h' k (fileRings c (file_k k)))"
      "\<forall>fk. fk \<noteq> file_k k \<longrightarrow> files c' fk = files c fk"
      "hand_in (files c' (file_k k)) (ring_link h' k (fileRings c (file_k k)))"
      "sizeHot c' = sizeHot c + (if ptype e = etHot then size_e e else 0)"
      "sizeCold c' = sizeCold c + (if ptype e = etCold then size_e e else 0)"
      "sizeTest c' = sizeTest c + (if ptype e = etTest then size_e e else 0)"
      "countHot c' = countHot c + (if ptype e = etHot then 1 else 0)"
      "countCold c' = countCold c + (if ptype e = etCold then 1 else 0)"
      "countTest c' = countTest c + (if ptype e = etTest then 1 else 0)"
      "target_ok c'"
  shows "shard_inv c'"
proof -
  have d: "distinct (ring c)" and dom: "dom (blocks c) = set (ring c)"
    using inv by (auto simp: shard_inv_def ring_ok_def)
  have nin: "k \<notin> set (ring c)" using b dom by auto
  have 1: "entries_ok c'"
    using inv c'(1,2) eo nin by (auto simp: shard_inv_def entries_ok_def ring_link_set)
  have 2: "ring_ok c'"
    using d dom c'(1,2) nin by (auto simp: ring_ok_def ring_link_set ring_link_distinct)
  have 3: "hands_ok c'"
    using c'(3-5) by (simp add: hands_ok_def)
  have 4: "counters_ok c'"
    using inv c'(1,2,9-14) nin
    by (simp add: shard_inv_def counters_ok_def totalSize_def totalCount_def wt_upd cnt_upd
        ring_link_sum sum_list_upd_out)
  have fr: "files_ok c" using inv by (simp add: shard_inv_def)
  have nf: "k \<notin> set (fileRings c (file_k k))" using fr nin by (auto simp: files_ok_def)
  have 5: "files_ok c'"
    unfolding files_ok_def
  proof (intro allI conjI)
    fix fk
    show "distinct (fileRings c' fk)"
      using fr c'(6) nf by (auto simp: files_ok_def ring_link_distinct)
    show "set (fileRings c' fk) = {x \<in> set (ring c'). file_k x = fk}"
      using fr c'(6,2) by (auto simp: files_ok_def ring_link_set)
    show "hand_in (files c' fk) (fileRings c' fk)"
    proof (cases "fk = file_k k")
      case True
      then show ?thesis using c'(6,8) by simp
    next
      case False
      then show ?thesis using fr c'(6,7) by (auto simp: files_ok_def)
    qed
  qed
  show ?thesis using 1 2 3 4 5 c'(15) by (simp add: shard_inv_def)
qed

lemma hand_in_link: "hand_in h xs \<Longrightarrow> xs \<noteq> [] \<Longrightarrow> hand_in h (ring_link a k xs)"
  by (cases h) (auto simp: ring_link_set)

lemma inv_files_head:
  "shard_inv c \<Longrightarrow> hand_in (files c fk) (fileRings c fk)"
  by (simp add: shard_inv_def files_ok_def)

lemma inv_fileRing_file:
  "shard_inv c \<Longrightarrow> x \<in> set (fileRings c fk) \<Longrightarrow> file_k x = fk"
  by (auto simp: shard_inv_def files_ok_def)

lemma linkEntry_inv:
  assumes inv: "shard_inv c" and b: "blocks c k = None" and eo: "entry_ok k e"
    and nt: "ptype e \<noteq> etTest"
    and c': "c' = (linkEntry k e c)\<lparr>sizeHot := sizeHot c + (if ptype e = etHot then size_e e else 0),
               countHot := countHot c + (if ptype e = etHot then 1 else 0),
               sizeCold := sizeCold c + (if ptype e = etCold then size_e e else 0),
               countCold := countCold c + (if ptype e = etCold then 1 else 0)\<rparr>"
  shows "shard_inv c'"
proof -
  have ke: "key e = k" using eo by (auto simp: entry_ok_def)
  have hs: "hand_in (handHot c) (ring c)" "hand_in (handCold c) (ring c)"
    "hand_in (handTest c) (ring c)" using inv_hands[OF inv] by auto
  obtain h where r: "ring (linkEntry k e c) = ring_link h k (ring c)"
    using hs(1) by (cases "handHot c") (auto simp: linkEntry_fields ke)
  have hh: "hand_in (handHot (linkEntry k e c)) (ring (linkEntry k e c))"
    using hs(1) by (cases "handHot c") (auto simp: linkEntry_fields ke ring_link_set)
  have ht: "hand_in (handTest (linkEntry k e c)) (ring (linkEntry k e c))"
    using hs(1,3) by (cases "handHot c"; cases "handTest c")
      (auto simp: linkEntry_fields ke ring_link_set)
  have hc: "hand_in (handCold (linkEntry k e c)) (ring (linkEntry k e c))"
  proof (cases "handHot c")
    case None
    then show ?thesis by (simp add: linkEntry_fields linkEntry_handCold ke ring_prev_def)
  next
    case (Some hh)
    then have hin: "hh \<in> set (ring c)" using hs(1) by simp
    show ?thesis
    proof (cases "handCold c = Some hh")
      case True
      have "hh \<in> set (ring_link hh k (ring c))" using hin by (simp add: ring_link_set)
      then have "ring_prev hh (ring_link hh k (ring c)) \<in> set (ring_link hh k (ring c))"
        by (rule ring_prev_in)
      then show ?thesis using Some True
        by (simp add: linkEntry_fields linkEntry_handCold ke prev_e_def)
    next
      case False
      then show ?thesis using Some hs(2) hin
        by (cases "handCold c") (auto simp: linkEntry_fields linkEntry_handCold ke ring_link_set)
    qed
  qed
  have fh: "hand_in (files c (file_k k)) (fileRings c (file_k k))"
    using inv by (rule inv_files_head)
  obtain h' where f: "fileRings (linkEntry k e c)
      = (fileRings c)(file_k k := ring_link h' k (fileRings c (file_k k)))"
  proof (cases "files c (file_k k)")
    case None
    then have "fileRings c (file_k k) = []" using fh by simp
    then show ?thesis using None that by (simp add: linkEntry_fields ke)
  next
    case (Some fb)
    then have "fb \<in> set (fileRings c (file_k k))" using fh by simp
    then have "file_k fb = file_k k" using inv by (rule inv_fileRing_file[rotated])
    then show ?thesis using Some that by (simp add: linkEntry_fields ke)
  qed
  have f2: "\<forall>fk. fk \<noteq> file_k k \<longrightarrow> files (linkEntry k e c) fk = files c fk"
    by (cases "files c (file_k k)") (auto simp: linkEntry_fields)
  have f3: "hand_in (files (linkEntry k e c) (file_k k)) (ring_link h' k (fileRings c (file_k k)))"
    using fh by (cases "files c (file_k k)") (auto simp: linkEntry_fields ke ring_link_set)
  have tk: "target_ok c'"
    using inv_target_ok[OF inv] by (simp add: c' target_ok_def targetSize_def linkEntry_fields)
  show ?thesis
    using r hh ht hc f f2 f3 tk nt eo
    by (intro inserted_inv[OF inv b eo, where h = h and h' = h'])
       (auto simp: c' linkEntry_fields entry_ok_def)
qed

section \<open>Delete of an absent key\<close>

text \<open>
  C7. For every key absent from the blocks map, \<^verbatim>\<open>Delete\<close> returns the shard as it
  was: maps, rings, hands, counters and the store of Values (so no reference is
  released) are all unchanged.
\<close>

theorem Delete_absent_noop:
  assumes "blocks c (mkKey i f off) = None"
  shows "Delete i f off c = Inr c"
  using assms by (simp add: Delete_def)

theorem Delete_absent_noop_witness:
  "blocks ex2 (mkKey 1 2 0) = None \<and> Delete 1 2 0 ex2 = Inr ex2"
proof -
  have h: "blocks ex2 (mkKey 1 2 0) = None" by code_simp
  show ?thesis using h Delete_absent_noop [OF h] by simp
qed

end
